theory Spec2Isabelle
  imports Main "HOL-Library.Word"
begin

section \<open>Python strings, exceptions and the built-ins the decoder calls\<close>

text \<open>
  A Python \<open>str\<close> is a sequence of Unicode code points, so a text is a list of code
  points. (An Isabelle \<open>char\<close> is a byte and cannot hold the result of
  \<open>chr(0x20AC)\<close>.) \<open>ustr\<close> turns an ASCII literal into such a text; the backslash
  is written \<open>bsl\<close>, as it cannot occur in a literal.
\<close>

type_synonym pystr = "nat list"

definition ustr :: "string \<Rightarrow> pystr" where
  "ustr s = map of_char s"

abbreviation (input) bsl :: nat where "bsl \<equiv> 92"
abbreviation (input) chr_u :: nat where "chr_u \<equiv> 117"
abbreviation (input) chr_x :: nat where "chr_x \<equiv> 120"
abbreviation (input) chr_slash :: nat where "chr_slash \<equiv> 47"

datatype exn = ValueError | OverflowError | OSError

text \<open>The character class \<open>[0-9a-fA-F]\<close> of both patterns.\<close>

definition is_hex :: "nat \<Rightarrow> bool" where
  "is_hex c = ((48 \<le> c \<and> c \<le> 57) \<or> (97 \<le> c \<and> c \<le> 102) \<or> (65 \<le> c \<and> c \<le> 70))"

definition hex_digit :: "nat \<Rightarrow> nat" where
  "hex_digit c = (if c \<le> 57 then c - 48 else if 97 \<le> c then c - 87 else c - 55)"

text \<open>
  \<open>int(hex_val, 16)\<close>: the positional value of a non-empty string of hexadecimal digits,
  \<open>ValueError\<close> otherwise. (Python also accepts a sign, a \<open>0x\<close> prefix, underscores and
  surrounding blanks; group 1 of either pattern holds hexadecimal digits only, so those
  spellings never reach the call.)
\<close>

definition py_int16 :: "pystr \<Rightarrow> exn + nat" where
  "py_int16 s =
     (if s \<noteq> [] \<and> list_all is_hex s
      then Inr (foldl (\<lambda>acc c. 16 * acc + hex_digit c) 0 s)
      else Inl ValueError)"

text \<open>\<open>chr(n)\<close>: defined up to U+10FFFF, lone surrogates included.\<close>

definition py_chr :: "nat \<Rightarrow> exn + nat" where
  "py_chr n =
     (if n < 0x110000 then Inr n
      else if n < 2 ^ 31 then Inl ValueError
      else Inl OverflowError)"

text \<open>\<open>pat in s\<close> and \<open>s.startswith(pat)\<close>.\<close>

definition startswith :: "pystr \<Rightarrow> pystr \<Rightarrow> bool" where
  "startswith pat s = (take (length pat) s = pat)"

fun str_contains :: "pystr \<Rightarrow> pystr \<Rightarrow> bool" where
  "str_contains pat [] = (pat = [])"
| "str_contains pat (c # cs) = (startswith pat (c # cs) \<or> str_contains pat cs)"

text \<open>
  \<open>s.replace(old, new)\<close>: the occurrences of \<open>old\<close> are found from the left and do not
  overlap. With an empty \<open>old\<close> Python puts \<open>new\<close> around every character.
\<close>

function str_replace :: "pystr \<Rightarrow> pystr \<Rightarrow> pystr \<Rightarrow> pystr" where
  "str_replace old new s =
     (if old = [] then new @ concat (map (\<lambda>c. c # new) s)
      else (case s of
              [] \<Rightarrow> []
            | c # cs \<Rightarrow>
                if startswith old s then new @ str_replace old new (drop (length old) s)
                else c # str_replace old new cs))"
  by pat_completeness auto
termination
  by (relation "measure (\<lambda>(old, new, s). length s)") auto

declare str_replace.simps [simp del]

section \<open>The regular-expression substitutions\<close>

text \<open>
  Both patterns, \<open>\\u([0-9a-fA-F]{4})\<close> and \<open>\\x([0-9a-fA-F]{2})\<close>, are a backslash, a
  letter and a fixed number \<open>n\<close> of hexadecimal digits. \<open>match_escape\<close> is
  \<open>pattern.match\<close> at the head of \<open>s\<close>: it gives \<open>group(0)\<close> and \<open>group(1)\<close>.
\<close>

definition match_escape :: "nat \<Rightarrow> nat \<Rightarrow> pystr \<Rightarrow> (pystr \<times> pystr) option" where
  "match_escape letter n s =
     (if take 2 s = [bsl, letter] \<and> length (take n (drop 2 s)) = n
         \<and> list_all is_hex (take n (drop 2 s))
      then Some (take (n + 2) s, take n (drop 2 s))
      else None)"

text \<open>
  \<open>re.sub(pattern, repl, s)\<close> with a function \<open>repl\<close>: the text is scanned from the left;
  at a match the callback's result is emitted and the scan goes on behind the match, so
  what the callback returns is never scanned again; elsewhere the character is copied.
  An exception of the callback leaves \<open>re.sub\<close>.
\<close>

function re_sub_escape ::
  "nat \<Rightarrow> nat \<Rightarrow> (pystr \<Rightarrow> pystr \<Rightarrow> exn + pystr) \<Rightarrow> pystr \<Rightarrow> exn + pystr" where
  "re_sub_escape letter n repl s =
     (case s of
        [] \<Rightarrow> Inr []
      | c # cs \<Rightarrow>
          (case match_escape letter n s of
             Some (g0, g1) \<Rightarrow>
               (case repl g0 g1 of
                  Inl e \<Rightarrow> Inl e
                | Inr r \<Rightarrow>
                    (case re_sub_escape letter n repl (drop (n + 2) s) of
                       Inl e \<Rightarrow> Inl e
                     | Inr t \<Rightarrow> Inr (r @ t)))
           | None \<Rightarrow>
               (case re_sub_escape letter n repl cs of
                  Inl e \<Rightarrow> Inl e
                | Inr t \<Rightarrow> Inr (c # t))))"
  by pat_completeness auto
termination
  by (relation "measure (\<lambda>(letter, n, repl, s). length s)") auto

declare re_sub_escape.simps [simp del]

text \<open>
  The callbacks \<open>replace_unicode\<close> and \<open>replace_hex\<close> have the same body:
  \<open>try: return chr(int(match.group(1), 16))\<close>, \<open>except: return match.group(0)\<close>.
  \<open>replace_match\<close> is that body over the two conversions it calls.
\<close>

definition replace_match ::
  "(pystr \<Rightarrow> exn + nat) \<Rightarrow> (nat \<Rightarrow> exn + nat) \<Rightarrow> pystr \<Rightarrow> pystr \<Rightarrow> exn + pystr" where
  "replace_match to_int to_chr g0 g1 =
     (case to_int g1 of
        Inl e \<Rightarrow> Inr g0
      | Inr v \<Rightarrow> (case to_chr v of Inl e \<Rightarrow> Inr g0 | Inr c \<Rightarrow> Inr [c]))"

definition replace_unicode :: "pystr \<Rightarrow> pystr \<Rightarrow> exn + pystr" where
  "replace_unicode = replace_match py_int16 py_chr"

definition replace_hex :: "pystr \<Rightarrow> pystr \<Rightarrow> exn + pystr" where
  "replace_hex = replace_match py_int16 py_chr"

section \<open>The decoder\<close>

datatype warning = WarnUnicode exn | WarnHex exn

text \<open>
  \<open>decode_with\<close> is the body of \<open>decode_unicode_escapes\<close> over the two \<open>re.sub\<close> calls
  of lines 69 and 83. A call that raises is caught by its \<open>except Exception\<close>: the
  warning is printed and \<open>decoded\<close> keeps its value. The result is the returned text
  with the warnings printed on the way.
\<close>

definition decode_with ::
  "(pystr \<Rightarrow> exn + pystr) \<Rightarrow> (pystr \<Rightarrow> exn + pystr) \<Rightarrow> pystr \<Rightarrow> exn + (pystr \<times> warning list)" where
  "decode_with sub_u sub_x text =
     (let (decoded1, out1) =
            (if str_contains [bsl, chr_u] text
             then (case sub_u text of
                     Inr d \<Rightarrow> (d, [])
                   | Inl e \<Rightarrow> (text, [WarnUnicode e]))
             else (text, []));
          (decoded2, out2) =
            (if str_contains [bsl, chr_x] decoded1
             then (case sub_x decoded1 of
                     Inr d \<Rightarrow> (d, out1)
                   | Inl e \<Rightarrow> (decoded1, out1 @ [WarnHex e]))
             else (decoded1, out1));
          decoded3 =
            (if str_contains [bsl, chr_slash] decoded2
             then str_replace [bsl, chr_slash] [chr_slash] decoded2
             else decoded2)
      in Inr (decoded3, out2))"

definition decode_unicode_escapes :: "pystr \<Rightarrow> exn + (pystr \<times> warning list)" where
  "decode_unicode_escapes text =
     decode_with (re_sub_escape chr_u 4 replace_unicode) (re_sub_escape chr_x 2 replace_hex) text"

text \<open>The text a call returns (every call returns, see \<open>decode_returns\<close> below).\<close>

definition decoded :: "pystr \<Rightarrow> pystr" where
  "decoded text = fst (projr (decode_unicode_escapes text))"

section \<open>The three passes as the specification words them\<close>

text \<open>
  These definitions follow the specification (section 4.1), not the code; the theorems
  below compare them with \<open>decode_unicode_escapes\<close>.

  An escape occurs at the head of a text when the text is a backslash, the letter and then
  \<open>n\<close> hexadecimal digits.
\<close>

fun escape_at :: "nat \<Rightarrow> nat \<Rightarrow> pystr \<Rightarrow> bool" where
  "escape_at letter n (b # l # t) =
     (b = bsl \<and> l = letter \<and> n \<le> length t \<and> list_all is_hex (take n t))"
| "escape_at letter n [b] = False"
| "escape_at letter n [] = False"

text \<open>
  Every occurrence, from the left, is replaced by the single character \<open>val\<close> gives for
  its digits.
\<close>

function sub_escapes :: "nat \<Rightarrow> nat \<Rightarrow> (pystr \<Rightarrow> nat) \<Rightarrow> pystr \<Rightarrow> pystr" where
  "sub_escapes letter n val s =
     (case s of
        [] \<Rightarrow> []
      | c # cs \<Rightarrow>
          if escape_at letter n s
          then val (take n (drop 2 s)) # sub_escapes letter n val (drop (n + 2) s)
          else c # sub_escapes letter n val cs)"
  by pat_completeness auto
termination
  by (relation "measure (\<lambda>(letter, n, val, s). length s)") auto

declare sub_escapes.simps [simp del]

text \<open>The digits read as a number, and as a 16-bit unsigned integer.\<close>

definition hex_value :: "pystr \<Rightarrow> nat" where
  "hex_value ds = foldl (\<lambda>acc c. 16 * acc + hex_digit c) 0 ds"

definition hex_word16 :: "pystr \<Rightarrow> 16 word" where
  "hex_word16 ds = foldl (\<lambda>acc c. 16 * acc + of_nat (hex_digit c)) 0 ds"

text \<open>Pass 1: \<open>\uXXXX\<close> becomes the character whose code point is that 16-bit value.\<close>

definition unicode_pass :: "pystr \<Rightarrow> pystr" where
  "unicode_pass = sub_escapes chr_u 4 (\<lambda>ds. unat (hex_word16 ds))"

text \<open>Pass 2: \<open>\xXX\<close> becomes the character whose code point is that 2-digit value.\<close>

definition hex_pass :: "pystr \<Rightarrow> pystr" where
  "hex_pass = sub_escapes chr_x 2 hex_value"

text \<open>Pass 3: every backslash followed by a slash becomes a bare slash.\<close>

fun slash_pass :: "pystr \<Rightarrow> pystr" where
  "slash_pass (b # c # rest) =
     (if b = bsl \<and> c = chr_slash then chr_slash # slash_pass rest
      else b # slash_pass (c # rest))"
| "slash_pass [b] = [b]"
| "slash_pass [] = []"

section \<open>The file pipeline\<close>

text \<open>
  \<open>Path.suffix\<close> and \<open>Path.stem\<close> of a file name, as \<open>pathlib\<close> computes them up to
  CPython 3.13: with \<open>i = name.rfind('.')\<close>, the suffix is \<open>name[i:]\<close> when
  \<open>0 < i < len(name) - 1\<close> and empty otherwise; the stem is the rest of the name.
\<close>

fun rfind :: "nat \<Rightarrow> pystr \<Rightarrow> nat option" where
  "rfind c [] = None"
| "rfind c (x # xs) =
     (case rfind c xs of
        Some i \<Rightarrow> Some (Suc i)
      | None \<Rightarrow> if x = c then Some 0 else None)"

abbreviation (input) chr_dot :: nat where "chr_dot \<equiv> 46"

definition path_suffix :: "pystr \<Rightarrow> pystr" where
  "path_suffix name =
     (case rfind chr_dot name of
        Some i \<Rightarrow> if 0 < i \<and> i + 1 < length name then drop i name else []
      | None \<Rightarrow> [])"

definition path_stem :: "pystr \<Rightarrow> pystr" where
  "path_stem name =
     (case rfind chr_dot name of
        Some i \<Rightarrow> if 0 < i \<and> i + 1 < length name then take i name else name
      | None \<Rightarrow> name)"

text \<open>The name of the output file: \<open>f"{stem}_decoded{suffix}"\<close> (line 141).\<close>

definition new_file_name :: "pystr \<Rightarrow> pystr" where
  "new_file_name name = path_stem name @ ustr ''_decoded'' @ path_suffix name"

text \<open>
  The working directory. \<open>files\<close> gives, for a name, what reading the file in text mode
  with the detected encoding and \<open>errors='replace'\<close> yields: its text, line ends already
  translated to line feeds, or the exception \<open>open\<close> or \<open>read\<close> raises; a name without an
  entry is a file that does not exist. \<open>write_error\<close> gives the exception that opening a
  name for writing raises, if any. \<open>text_file\<close> stands for \<open>is_text_file\<close> (lines 97 to
  115), which looks at the extension and the first bytes. \<open>linesep\<close> is \<open>os.linesep\<close>, a
  line feed or a carriage return and a line feed.
\<close>

record world =
  files :: "pystr \<Rightarrow> (exn + pystr) option"
  write_error :: "pystr \<Rightarrow> exn option"
  text_file :: "pystr \<Rightarrow> bool"
  linesep :: pystr

definition read_text :: "world \<Rightarrow> pystr \<Rightarrow> exn + pystr" where
  "read_text w name = (case files w name of None \<Rightarrow> Inl OSError | Some r \<Rightarrow> r)"

text \<open>
  Writing in text mode with \<open>encoding='utf-8', errors='replace'\<close>: every line feed is
  written as \<open>os.linesep\<close>, and a lone surrogate, which has no UTF-8 encoding, as a question
  mark.
\<close>

definition write_newlines :: "pystr \<Rightarrow> pystr \<Rightarrow> pystr" where
  "write_newlines sep text = concat (map (\<lambda>c. if c = 10 then sep else [c]) text)"

definition utf8_replace :: "pystr \<Rightarrow> pystr" where
  "utf8_replace text = map (\<lambda>c. if 0xD800 \<le> c \<and> c \<le> 0xDFFF then 63 else c) text"

text \<open>
  Reading in text mode (universal newlines): a carriage return with a line feed behind it,
  and a carriage return alone, are read as one line feed.
\<close>

fun universal_newlines :: "pystr \<Rightarrow> pystr" where
  "universal_newlines (a # b # rest) =
     (if a = 13 \<and> b = 10 then 10 # universal_newlines rest
      else if a = 13 then 10 # universal_newlines (b # rest)
      else a # universal_newlines (b # rest))"
| "universal_newlines [a] = (if a = 13 then [10] else [a])"
| "universal_newlines [] = []"

text \<open>What a later read of the file yields after \<open>f.write(text)\<close>.\<close>

definition written_text :: "world \<Rightarrow> pystr \<Rightarrow> pystr" where
  "written_text w text = universal_newlines (utf8_replace (write_newlines (linesep w) text))"

definition write_text :: "world \<Rightarrow> pystr \<Rightarrow> pystr \<Rightarrow> exn + world" where
  "write_text w name text =
     (case write_error w name of
        Some e \<Rightarrow> Inl e
      | None \<Rightarrow> Inr (w\<lparr>files := (files w)(name \<mapsto> Inr (written_text w text))\<rparr>))"

text \<open>What \<open>process_file\<close> prints: a warning of the decoder, or one of its status lines.\<close>

datatype report = Warned warning | Skip | Ok pystr | Error exn

text \<open>
  \<open>process_file\<close> gives its return value, the directory afterwards and what it printed.
  Every exception raised inside its \<open>try\<close> ends in the \<open>except Exception\<close> of line 156,
  which prints the error and returns \<open>False\<close>. (The sizes printed after \<open>[OK]\<close> are left
  out.)
\<close>

definition process_file :: "world \<Rightarrow> pystr \<Rightarrow> bool \<times> world \<times> report list" where
  "process_file w name =
     (case read_text w name of
        Inl e \<Rightarrow> (False, w, [Error e])
      | Inr content \<Rightarrow>
          (case decode_unicode_escapes content of
             Inl e \<Rightarrow> (False, w, [Error e])
           | Inr (decoded_content, warnings) \<Rightarrow>
               if decoded_content = content
               then (False, w, map Warned warnings @ [Skip])
               else (case write_text w (new_file_name name) decoded_content of
                       Inl e \<Rightarrow> (False, w, map Warned warnings @ [Error e])
                     | Inr w' \<Rightarrow> (True, w', map Warned warnings @ [Ok (new_file_name name)]))))"

text \<open>The three counters of \<open>main\<close> and the branch that updates them (lines 210 to 215).\<close>

record tally =
  processed_count :: nat
  skipped_count :: nat
  error_count :: nat

definition count_result :: "bool \<Rightarrow> tally \<Rightarrow> tally" where
  "count_result result t =
     (if result = True then t\<lparr>processed_count := processed_count t + 1\<rparr>
      else if result = False then t\<lparr>skipped_count := skipped_count t + 1\<rparr>
      else t\<lparr>error_count := error_count t + 1\<rparr>)"

text \<open>The loop over \<open>files_to_process\<close> (lines 205 to 217).\<close>

fun process_files :: "world \<Rightarrow> pystr list \<Rightarrow> tally \<Rightarrow> world \<times> report list \<times> tally" where
  "process_files w [] t = (w, [], t)"
| "process_files w (name # names) t =
     (case process_file w name of
        (result, w', out) \<Rightarrow>
          (case process_files w' names (count_result result t) of
             (w'', out', t') \<Rightarrow> (w'', out @ out', t')))"

text \<open>
  The selection of lines 178 to 190 over the directory listing: not the script itself, no
  stem with the marker, and a text file.
\<close>

definition files_to_process :: "pystr \<Rightarrow> world \<Rightarrow> pystr list \<Rightarrow> pystr list" where
  "files_to_process script w all_files =
     filter (\<lambda>name. name \<noteq> script
                    \<and> \<not> str_contains (ustr ''_decoded'') (path_stem name)
                    \<and> text_file w name) all_files"

definition main :: "pystr \<Rightarrow> world \<Rightarrow> pystr list \<Rightarrow> world \<times> report list \<times> tally" where
  "main script w all_files =
     process_files w (files_to_process script w all_files)
       \<lparr>processed_count = 0, skipped_count = 0, error_count = 0\<rparr>"

section \<open>Properties of the passes\<close>

subsection \<open>Escapes and the scan\<close>

lemma sub_escapes_Nil [simp]: "sub_escapes l n v [] = []"
  by (simp add: sub_escapes.simps)

lemma sub_escapes_hit:
  "escape_at l n (c # cs) \<Longrightarrow>
   sub_escapes l n v (c # cs) = v (take n (drop 2 (c # cs))) # sub_escapes l n v (drop (n + 2) (c # cs))"
  by (subst sub_escapes.simps) simp

lemma sub_escapes_miss:
  "\<not> escape_at l n (c # cs) \<Longrightarrow> sub_escapes l n v (c # cs) = c # sub_escapes l n v cs"
  by (subst sub_escapes.simps) simp

lemma escape_at_head: "escape_at l n (c # cs) \<Longrightarrow> c = bsl"
  by (cases cs) auto

lemma escape_at_length: "escape_at l n s \<Longrightarrow> n + 2 \<le> length s"
  by (induction l n s rule: escape_at.induct) auto

lemma escape_at_append: "escape_at l n s \<Longrightarrow> escape_at l n (s @ t)"
  by (induction l n s rule: escape_at.induct) auto

lemma escape_at_cut:
  assumes "escape_at l n (a @ bsl # b)" "a \<noteq> []" "l \<noteq> bsl"
  shows "escape_at l n a"
proof -
  obtain c cs where a: "a = c # cs" using assms(2) by (cases a) auto
  show ?thesis
  proof (cases cs)
    case Nil
    with assms a show ?thesis by auto
  next
    case (Cons l' t)
    have hx: "list_all is_hex (take n (t @ bsl # b))" and len: "n \<le> length (t @ bsl # b)"
      and hd: "c = bsl" "l' = l"
      using assms(1) a Cons by auto
    have "n \<le> length t"
    proof (rule ccontr)
      assume "\<not> n \<le> length t"
      then have "bsl \<in> set (take n (t @ bsl # b))"
        by (auto simp: take_Cons' )
      with hx have "is_hex bsl" by (auto simp: list_all_iff)
      then show False by (simp add: is_hex_def)
    qed
    with hx hd show ?thesis using a Cons by auto
  qed
qed

lemma sub_escapes_plain:
  "bsl \<notin> set a \<Longrightarrow> sub_escapes l n v (a @ b) = a @ sub_escapes l n v b"
proof (induction a)
  case Nil
  then show ?case by simp
next
  case (Cons c cs)
  then have "\<not> escape_at l n (c # cs @ b)" using escape_at_head by fastforce
  then show ?case using Cons by (simp add: sub_escapes_miss)
qed

lemma sub_escapes_split:
  assumes "l \<noteq> bsl"
  shows "sub_escapes l n v (a @ bsl # b) = sub_escapes l n v a @ sub_escapes l n v (bsl # b)"
proof (induction a rule: length_induct)
  case (1 a)
  show ?case
  proof (cases a)
    case Nil
    then show ?thesis by simp
  next
    case (Cons c cs)
    show ?thesis
    proof (cases "escape_at l n a")
      case True
      then have len: "n + 2 \<le> length a" by (rule escape_at_length)
      have hit: "escape_at l n (c # cs @ bsl # b)"
        using escape_at_append[OF True, of "bsl # b"] Cons by simp
      have sm: "length (drop (n + 2) a) < length a" using len by simp
      have "sub_escapes l n v (a @ bsl # b)
          = v (take n (drop 2 a)) # sub_escapes l n v (drop (n + 2) a @ bsl # b)"
        using sub_escapes_hit[OF hit, of v] len Cons by simp
      also have "\<dots> = v (take n (drop 2 a)) # sub_escapes l n v (drop (n + 2) a) @ sub_escapes l n v (bsl # b)"
        using 1 sm by simp
      also have "\<dots> = sub_escapes l n v a @ sub_escapes l n v (bsl # b)"
        using sub_escapes_hit[of l n c cs v] True Cons by simp
      finally show ?thesis .
    next
      case False
      then have miss: "\<not> escape_at l n (c # cs @ bsl # b)"
        using escape_at_cut[of l n a b] assms Cons by auto
      show ?thesis
        using sub_escapes_miss[OF miss, of v] sub_escapes_miss[of l n c cs v] False Cons 1
        by simp
    qed
  qed
qed

lemma sub_escapes_length: "length (sub_escapes l n v s) \<le> length s"
proof (induction s rule: length_induct)
  case (1 s)
  show ?case
  proof (cases s)
    case Nil
    then show ?thesis by simp
  next
    case (Cons c cs)
    show ?thesis
    proof (cases "escape_at l n s")
      case True
      then have len: "n + 2 \<le> length s" by (rule escape_at_length)
      then have "length (sub_escapes l n v (drop (n + 2) s)) \<le> length s - (n + 2)"
        using 1 Cons by (metis diff_less length_drop length_greater_0_conv list.distinct(1) add_2_eq_Suc' zero_less_Suc)
      then show ?thesis using True Cons sub_escapes_hit[of l n c cs v] len by simp
    next
      case False
      then show ?thesis using Cons 1 sub_escapes_miss[of l n c cs v] by simp
    qed
  qed
qed

lemma escape_at_startswith: "escape_at l n s \<Longrightarrow> startswith [bsl, l] s"
  by (induction l n s rule: escape_at.induct) (auto simp: startswith_def)

lemma sub_escapes_absent:
  "\<not> str_contains [bsl, l] s \<Longrightarrow> sub_escapes l n v s = s"
proof (induction s)
  case Nil
  then show ?case by simp
next
  case (Cons c cs)
  then have "\<not> escape_at l n (c # cs)" using escape_at_startswith by auto
  then show ?case using Cons by (simp add: sub_escapes_miss)
qed

subsection \<open>The slash pass, and \<open>str.replace\<close> against it\<close>

lemma slash_pass_plain: "bsl \<notin> set a \<Longrightarrow> slash_pass (a @ b) = a @ slash_pass b"
proof (induction a)
  case Nil
  then show ?case by simp
next
  case (Cons c cs)
  then show ?case by (cases "cs @ b") auto
qed

lemma slash_pass_split: "slash_pass (a @ bsl # b) = slash_pass a @ slash_pass (bsl # b)"
proof (induction a rule: slash_pass.induct)
  case (1 b' c rest)
  then show ?case by auto
next
  case (2 b')
  then show ?case by simp
next
  case 3
  then show ?case by simp
qed

lemma slash_pass_length: "length (slash_pass s) \<le> length s"
  by (induction s rule: slash_pass.induct) auto

lemma slash_pass_absent: "\<not> str_contains [bsl, chr_slash] s \<Longrightarrow> slash_pass s = s"
  by (induction s rule: slash_pass.induct) (auto simp: startswith_def)

lemma str_replace_slash: "str_replace [bsl, chr_slash] [chr_slash] s = slash_pass s"
proof (induction s rule: slash_pass.induct)
  case (1 b c rest)
  then show ?case
    by (subst str_replace.simps) (auto simp: startswith_def)
next
  case (2 b)
  then show ?case
    by (subst str_replace.simps, subst str_replace.simps) (simp add: startswith_def)
next
  case 3
  then show ?case by (subst str_replace.simps) simp
qed

subsection \<open>The substitutions of the code against the passes\<close>

lemma match_escape_iff: "(match_escape l n s \<noteq> None) = escape_at l n s"
  by (induction l n s rule: escape_at.induct) (auto simp: match_escape_def)

lemma match_escape_Some:
  "match_escape l n s = Some (g0, g1) \<Longrightarrow>
     escape_at l n s \<and> g0 = take (n + 2) s \<and> g1 = take n (drop 2 s) \<and> length g1 = n \<and> list_all is_hex g1"
  using match_escape_iff[of l n s] by (auto simp: match_escape_def split: if_splits)

lemma re_sub_escape_pure:
  assumes "\<And>g0 g1. length g1 = n \<Longrightarrow> list_all is_hex g1 \<Longrightarrow> repl g0 g1 = Inr [v g1]"
  shows "re_sub_escape l n repl s = Inr (sub_escapes l n v s)"
proof (induction s rule: length_induct)
  case (1 s)
  show ?case
  proof (cases s)
    case Nil
    then show ?thesis by (simp add: re_sub_escape.simps)
  next
    case (Cons c cs)
    show ?thesis
    proof (cases "match_escape l n s")
      case None
      then have "\<not> escape_at l n (c # cs)" using match_escape_iff[of l n s] Cons by simp
      then show ?thesis
        using None Cons 1 by (subst re_sub_escape.simps) (simp add: sub_escapes_miss)
    next
      case (Some g)
      obtain g0 g1 where g: "g = (g0, g1)" by (cases g)
      note m = match_escape_Some[OF Some[unfolded g]]
      have r: "repl g0 g1 = Inr [v g1]" using assms[of g1 g0] m by blast
      have len: "n + 2 \<le> length s" using m escape_at_length by blast
      have "length (drop (n + 2) s) < length s" using len by simp
      then have ih: "re_sub_escape l n repl (drop (n + 2) s) = Inr (sub_escapes l n v (drop (n + 2) s))"
        using 1 by blast
      have "escape_at l n (c # cs)" using m Cons by simp
      from sub_escapes_hit[OF this, of v] show ?thesis
        using Some g r ih m Cons by (subst re_sub_escape.simps) simp
    qed
  qed
qed

lemma hex_digit_less: "is_hex c \<Longrightarrow> hex_digit c < 16"
  by (auto simp: is_hex_def hex_digit_def)

lemma hex_value_bound_aux:
  "list_all is_hex ds \<Longrightarrow> foldl (\<lambda>acc c. 16 * acc + hex_digit c) a ds < (a + 1) * 16 ^ length ds"
proof (induction ds arbitrary: a)
  case Nil
  then show ?case by simp
next
  case (Cons d ds)
  then have d: "hex_digit d < 16" and rest: "list_all is_hex ds" by (auto simp: hex_digit_less)
  have "foldl (\<lambda>acc c. 16 * acc + hex_digit c) (16 * a + hex_digit d) ds
        < (16 * a + hex_digit d + 1) * 16 ^ length ds"
    using Cons.IH[OF rest] .
  also have "\<dots> \<le> (16 * a + 16) * 16 ^ length ds"
    using d by (intro mult_right_mono) auto
  finally show ?case by (simp add: algebra_simps)
qed

lemma hex_value_bound: "list_all is_hex ds \<Longrightarrow> hex_value ds < 16 ^ length ds"
  using hex_value_bound_aux[of ds 0] by (simp add: hex_value_def)

lemma hex_word16_of_nat_aux:
  "foldl (\<lambda>acc c. 16 * acc + of_nat (hex_digit c)) (of_nat a :: 16 word) ds
     = of_nat (foldl (\<lambda>acc c. 16 * acc + hex_digit c) a ds)"
proof (induction ds arbitrary: a)
  case Nil
  then show ?case by simp
next
  case (Cons d ds)
  have "(16 * of_nat a + of_nat (hex_digit d) :: 16 word) = of_nat (16 * a + hex_digit d)"
    by simp
  then show ?case using Cons.IH[of "16 * a + hex_digit d"] by simp
qed

lemma hex_word16_value:
  assumes "list_all is_hex ds" "length ds \<le> 4"
  shows "unat (hex_word16 ds) = hex_value ds"
proof -
  have "hex_word16 ds = of_nat (hex_value ds)"
    using hex_word16_of_nat_aux[of 0 ds] by (simp add: hex_word16_def hex_value_def)
  moreover have "hex_value ds < 2 ^ 16"
  proof -
    have "hex_value ds < 16 ^ length ds" using assms(1) by (rule hex_value_bound)
    also have "(16::nat) ^ length ds \<le> 16 ^ 4" using assms(2) by (intro power_increasing) auto
    finally show ?thesis by simp
  qed
  ultimately show ?thesis by (simp add: unat_of_nat take_bit_nat_eq_self)
qed

lemma replace_unicode_char:
  assumes "length g1 = 4" "list_all is_hex g1"
  shows "replace_unicode g0 g1 = Inr [unat (hex_word16 g1)]"
proof -
  have v: "hex_value g1 < 16 ^ 4" using hex_value_bound[OF assms(2)] assms(1) by simp
  have ne: "g1 \<noteq> []" using assms(1) by auto
  show ?thesis
    using v ne assms hex_word16_value[of g1]
    by (simp add: replace_unicode_def replace_match_def py_int16_def py_chr_def hex_value_def)
qed

lemma replace_hex_char:
  assumes "length g1 = 2" "list_all is_hex g1"
  shows "replace_hex g0 g1 = Inr [hex_value g1]"
proof -
  have v: "hex_value g1 < 16 ^ 2" using hex_value_bound[OF assms(2)] assms(1) by simp
  have ne: "g1 \<noteq> []" using assms(1) by auto
  show ?thesis
    using v ne assms
    by (simp add: replace_hex_def replace_match_def py_int16_def py_chr_def hex_value_def)
qed

lemma re_sub_unicode_pass: "re_sub_escape chr_u 4 replace_unicode s = Inr (unicode_pass s)"
  unfolding unicode_pass_def by (rule re_sub_escape_pure) (rule replace_unicode_char)

lemma re_sub_hex_pass: "re_sub_escape chr_x 2 replace_hex s = Inr (hex_pass s)"
  unfolding hex_pass_def by (rule re_sub_escape_pure) (rule replace_hex_char)

lemma unicode_pass_absent: "\<not> str_contains [bsl, chr_u] s \<Longrightarrow> unicode_pass s = s"
  unfolding unicode_pass_def by (rule sub_escapes_absent)

lemma hex_pass_absent: "\<not> str_contains [bsl, chr_x] s \<Longrightarrow> hex_pass s = s"
  unfolding hex_pass_def by (rule sub_escapes_absent)

lemma decode_passes:
  "decode_unicode_escapes s = Inr (slash_pass (hex_pass (unicode_pass s)), [])"
  by (simp add: decode_unicode_escapes_def decode_with_def re_sub_unicode_pass re_sub_hex_pass
      str_replace_slash unicode_pass_absent hex_pass_absent slash_pass_absent Let_def)

lemma decoded_passes: "decoded s = slash_pass (hex_pass (unicode_pass s))"
  by (simp add: decoded_def decode_passes)

subsection \<open>Text that a pass leaves in place\<close>

lemma ustr_simps [simp]: "ustr [] = []" "ustr (c # cs) = of_char c # ustr cs"
  by (simp_all add: ustr_def)

lemma sub_escapes_keep:
  assumes "l \<noteq> bsl" "\<not> escape_at l n (bsl # c # w @ b)" "c \<noteq> bsl" "bsl \<notin> set w"
  shows "sub_escapes l n v (a @ bsl # c # w @ b) = sub_escapes l n v a @ bsl # c # w @ sub_escapes l n v b"
proof -
  have "sub_escapes l n v ((c # w) @ b) = (c # w) @ sub_escapes l n v b"
    using assms(3,4) by (intro sub_escapes_plain) auto
  then show ?thesis
    using sub_escapes_split[OF assms(1), of n v a "c # w @ b"] sub_escapes_miss[OF assms(2), of v]
    by simp
qed

lemma slash_pass_keep_run:
  assumes "c \<noteq> chr_slash" "c \<noteq> bsl" "bsl \<notin> set w"
  shows "slash_pass (a @ bsl # c # w @ b) = slash_pass a @ bsl # c # w @ slash_pass b"
proof -
  have "slash_pass ((c # w) @ b) = (c # w) @ slash_pass b"
    using assms(2,3) by (intro slash_pass_plain) auto
  then show ?thesis
    using slash_pass_split[of a "c # w @ b"] assms(1) by simp
qed

lemma decoded_keep:
  assumes "c \<noteq> bsl" "bsl \<notin> set w"
    and "\<not> escape_at chr_u 4 (bsl # c # w @ post)"
    and "\<not> escape_at chr_x 2 (bsl # c # w @ unicode_pass post)"
    and "c \<noteq> chr_slash"
  shows "decoded (pre @ bsl # c # w @ post) = decoded pre @ bsl # c # w @ decoded post"
proof -
  have p1: "unicode_pass (pre @ bsl # c # w @ post) = unicode_pass pre @ bsl # c # w @ unicode_pass post"
    unfolding unicode_pass_def using assms(1,2,3) by (intro sub_escapes_keep) auto
  have x: "\<not> escape_at chr_x 2 (bsl # c # w @ sub_escapes chr_u 4 (\<lambda>ds. unat (hex_word16 ds)) post)"
    using assms(4) by (simp add: unicode_pass_def)
  have p2: "hex_pass (unicode_pass pre @ bsl # c # w @ unicode_pass post)
      = hex_pass (unicode_pass pre) @ bsl # c # w @ hex_pass (unicode_pass post)"
    unfolding hex_pass_def unicode_pass_def using assms(1,2) x by (intro sub_escapes_keep) auto
  show ?thesis
    using assms(1,2,5) by (simp add: decoded_passes p1 p2 slash_pass_keep_run)
qed

lemma decoded_plain: "bsl \<notin> set s \<Longrightarrow> decoded s = s"
  using sub_escapes_plain[of s chr_u 4 _ "[]"] sub_escapes_plain[of s chr_x 2 _ "[]"]
    slash_pass_plain[of s "[]"]
  by (simp add: decoded_passes unicode_pass_def hex_pass_def)

lemma decode_returns: "decode_unicode_escapes s = Inr (decoded s, [])"
  by (simp add: decode_passes decoded_passes)

subsection \<open>Running the code on a given text\<close>

lemma re_sub_escape_Nil [simp]: "re_sub_escape l n repl [] = Inr []"
  by (simp add: re_sub_escape.simps)

lemma re_sub_escape_Cons:
  "re_sub_escape l n repl (c # cs) =
     (case match_escape l n (c # cs) of
        Some (g0, g1) \<Rightarrow>
          (case repl g0 g1 of
             Inl e \<Rightarrow> Inl e
           | Inr r \<Rightarrow> (case re_sub_escape l n repl (drop (n + 2) (c # cs)) of
                        Inl e \<Rightarrow> Inl e | Inr t \<Rightarrow> Inr (r @ t)))
      | None \<Rightarrow> (case re_sub_escape l n repl cs of Inl e \<Rightarrow> Inl e | Inr t \<Rightarrow> Inr (c # t)))"
  by (subst re_sub_escape.simps) simp

lemma str_replace_Nil: "old \<noteq> [] \<Longrightarrow> str_replace old new [] = []"
  by (simp add: str_replace.simps)

lemma str_replace_Cons:
  "old \<noteq> [] \<Longrightarrow> str_replace old new (c # cs) =
     (if startswith old (c # cs) then new @ str_replace old new (drop (length old) (c # cs))
      else c # str_replace old new cs)"
  by (subst str_replace.simps) simp

lemmas run_decoder =
  decode_unicode_escapes_def decode_with_def re_sub_escape_Cons str_replace_Nil str_replace_Cons
  match_escape_def replace_unicode_def replace_hex_def replace_match_def py_int16_def py_chr_def
  is_hex_def hex_digit_def startswith_def Let_def

subsection \<open>Exceptions inside the decoder\<close>

lemma re_sub_escape_total:
  assumes "\<And>g0 g1. \<exists>r. repl g0 g1 = Inr r"
  shows "\<exists>t. re_sub_escape l n repl s = Inr t"
proof (induction s rule: length_induct)
  case (1 s)
  show ?case
  proof (cases s)
    case Nil
    then show ?thesis by simp
  next
    case (Cons c cs)
    show ?thesis
    proof (cases "match_escape l n s")
      case None
      moreover obtain t where "re_sub_escape l n repl cs = Inr t" using 1 Cons by auto
      ultimately show ?thesis using Cons by (simp add: re_sub_escape_Cons)
    next
      case (Some g)
      obtain g0 g1 where g: "g = (g0, g1)" by (cases g)
      obtain r where r: "repl g0 g1 = Inr r" using assms by blast
      have "length (drop (n + 2) s) < length s" using Cons by simp
      then obtain t where "re_sub_escape l n repl (drop (n + 2) s) = Inr t" using 1 by blast
      then show ?thesis using Some g r Cons by (simp add: re_sub_escape_Cons)
    qed
  qed
qed

lemma replace_match_returns: "\<exists>r. replace_match to_int to_chr g0 g1 = Inr r"
  by (simp add: replace_match_def split: sum.splits)

lemma replace_match_fallback:
  "to_int g1 = Inl e \<or> (\<exists>v. to_int g1 = Inr v \<and> to_chr v = Inl e) \<Longrightarrow>
   replace_match to_int to_chr g0 g1 = Inr g0"
  by (auto simp: replace_match_def)

lemma decode_with_returns: "\<exists>r. decode_with sub_u sub_x text = Inr r"
  by (simp add: decode_with_def Let_def split_beta)

lemma slash_guard:
  "(if str_contains [bsl, chr_slash] d then str_replace [bsl, chr_slash] [chr_slash] d else d)
     = slash_pass d"
  by (simp add: str_replace_slash slash_pass_absent)

lemma decode_with_unicode_fails:
  assumes "str_contains [bsl, chr_u] text" "sub_u text = Inl e"
  shows "decode_with sub_u sub_x text =
     (case decode_with Inr sub_x text of
        Inr (t, ws) \<Rightarrow> Inr (t, WarnUnicode e # ws)
      | Inl e' \<Rightarrow> Inl e')"
  using assms by (simp add: decode_with_def Let_def split: sum.splits)

lemma decode_with_hex_fails:
  assumes "d1 = (if str_contains [bsl, chr_u] text
                 then (case sub_u text of Inr d \<Rightarrow> d | Inl e' \<Rightarrow> text) else text)"
    and "str_contains [bsl, chr_x] d1" "sub_x d1 = Inl e"
  shows "\<exists>ws. decode_with sub_u sub_x text = Inr (slash_pass d1, ws @ [WarnHex e])"
proof (cases "str_contains [bsl, chr_u] text")
  case False
  then have d: "d1 = text" using assms(1) by simp
  show ?thesis using assms(2,3) False unfolding d
    by (simp add: decode_with_def Let_def slash_guard)
next
  case True
  show ?thesis
  proof (cases "sub_u text")
    case (Inl e')
    then have d: "d1 = text" using assms(1) by simp
    show ?thesis using assms(2,3) True Inl unfolding d
      by (simp add: decode_with_def Let_def slash_guard)
  next
    case (Inr d)
    then have d: "d1 = d" using assms(1) True by simp
    show ?thesis using assms(2,3) True Inr unfolding d
      by (simp add: decode_with_def Let_def slash_guard)
  qed
qed

subsection \<open>A backslash that an escape stands for\<close>

lemma escape_at_digits:
  "length hs = n \<Longrightarrow> list_all is_hex hs \<Longrightarrow> escape_at l n (bsl # l # hs @ t)"
  by simp

lemma hex_not_bsl: "list_all is_hex hs \<Longrightarrow> bsl \<notin> set hs"
  by (auto simp: list_all_iff is_hex_def)

lemma sub_escapes_decode_one:
  assumes "l \<noteq> bsl" "length hs = n" "list_all is_hex hs"
  shows "sub_escapes l n v (a @ bsl # l # hs @ b) = sub_escapes l n v a @ v hs # sub_escapes l n v b"
proof -
  have "escape_at l n (bsl # l # hs @ b)" using assms(2,3) by (rule escape_at_digits)
  from sub_escapes_hit[OF this, of v] show ?thesis
    using sub_escapes_split[OF assms(1), of n v a "l # hs @ b"] assms(2) by simp
qed

lemma sub_escapes_at_backslash:
  assumes "l \<noteq> bsl" "\<not> escape_at l n (bsl # b)"
  shows "sub_escapes l n v (a @ bsl # b) = sub_escapes l n v a @ bsl # sub_escapes l n v b"
  using sub_escapes_split[OF assms(1), of n v a b] sub_escapes_miss[OF assms(2), of v] by simp

lemma slash_pass_at_backslash:
  assumes "\<not> startswith [chr_slash] b"
  shows "slash_pass (a @ bsl # b) = slash_pass a @ bsl # slash_pass b"
proof -
  have "slash_pass (bsl # b) = bsl # slash_pass b"
    using assms by (cases b) (auto simp: startswith_def)
  then show ?thesis using slash_pass_split[of a b] by simp
qed

lemma py_int16_value: "py_int16 hs = Inr v \<Longrightarrow> hex_value hs = v"
  by (simp add: py_int16_def hex_value_def split: if_splits)

lemma unicode_pass_backslash:
  assumes "length h4 = 4" "list_all is_hex h4" "py_int16 h4 = Inr bsl"
  shows "unicode_pass (pre @ bsl # chr_u # h4 @ rest) = unicode_pass pre @ bsl # unicode_pass rest"
proof -
  have "unat (hex_word16 h4) = bsl"
    using hex_word16_value[of h4] py_int16_value[OF assms(3)] assms(1,2) by simp
  then show ?thesis
    unfolding unicode_pass_def
    using sub_escapes_decode_one[of chr_u h4 4 "\<lambda>ds. unat (hex_word16 ds)" pre rest] assms(1,2)
    by simp
qed

lemma hex_pass_backslash:
  assumes "length h2 = 2" "list_all is_hex h2" "py_int16 h2 = Inr bsl"
  shows "hex_pass (a @ bsl # chr_x # h2 @ b) = hex_pass a @ bsl # hex_pass b"
  unfolding hex_pass_def
  using sub_escapes_decode_one[of chr_x h2 2 hex_value a b] py_int16_value[OF assms(3)] assms(1,2)
  by simp

lemma unicode_pass_hex_escape:
  assumes "list_all is_hex h2"
  shows "unicode_pass (pre @ bsl # chr_x # h2 @ rest) = unicode_pass pre @ bsl # chr_x # h2 @ unicode_pass rest"
proof -
  have nb: "bsl \<notin> set (chr_x # h2)" using hex_not_bsl[OF assms] by simp
  have "sub_escapes chr_u 4 (\<lambda>ds. unat (hex_word16 ds)) ((chr_x # h2) @ rest)
      = (chr_x # h2) @ sub_escapes chr_u 4 (\<lambda>ds. unat (hex_word16 ds)) rest"
    using nb by (rule sub_escapes_plain)
  moreover have "\<not> escape_at chr_u 4 (bsl # chr_x # h2 @ rest)" by simp
  ultimately show ?thesis
    unfolding unicode_pass_def
    using sub_escapes_at_backslash[of chr_u 4 "chr_x # h2 @ rest" "\<lambda>ds. unat (hex_word16 ds)" pre]
    by simp
qed

lemma decoded_unicode_backslash_kept:
  assumes "length h4 = 4" "list_all is_hex h4" "py_int16 h4 = Inr bsl"
    and "\<not> escape_at chr_x 2 (bsl # unicode_pass rest)"
    and "\<not> startswith [chr_slash] (hex_pass (unicode_pass rest))"
  shows "decoded (pre @ bsl # chr_u # h4 @ rest) = decoded pre @ bsl # decoded rest"
proof -
  have p2: "hex_pass (unicode_pass pre @ bsl # unicode_pass rest)
      = hex_pass (unicode_pass pre) @ bsl # hex_pass (unicode_pass rest)"
    unfolding hex_pass_def using assms(4) by (intro sub_escapes_at_backslash) auto
  show ?thesis
    by (simp add: decoded_passes unicode_pass_backslash[OF assms(1,2,3)] p2
        slash_pass_at_backslash[OF assms(5)])
qed

lemma decoded_unicode_backslash_later:
  assumes "length h4 = 4" "list_all is_hex h4" "py_int16 h4 = Inr bsl"
    and "\<not> escape_at chr_u 4 (bsl # rest)"
  shows "decoded (pre @ bsl # chr_u # h4 @ rest) = decoded (pre @ bsl # rest)"
proof -
  have "unicode_pass (pre @ bsl # rest) = unicode_pass pre @ bsl # unicode_pass rest"
    unfolding unicode_pass_def using assms(4) by (intro sub_escapes_at_backslash) auto
  then show ?thesis
    by (simp add: decoded_passes unicode_pass_backslash[OF assms(1,2,3)])
qed

lemma decoded_hex_backslash_kept:
  assumes "length h2 = 2" "list_all is_hex h2" "py_int16 h2 = Inr bsl"
    and "\<not> startswith [chr_slash] (hex_pass (unicode_pass rest))"
  shows "decoded (pre @ bsl # chr_x # h2 @ rest) = decoded pre @ bsl # decoded rest"
  by (simp add: decoded_passes unicode_pass_hex_escape[OF assms(2)]
      hex_pass_backslash[OF assms(1,2,3)] slash_pass_at_backslash[OF assms(4)])

lemma decoded_hex_backslash_later:
  assumes "length h2 = 2" "list_all is_hex h2" "py_int16 h2 = Inr bsl"
    and "\<not> escape_at chr_u 4 (bsl # rest)"
    and "\<not> escape_at chr_x 2 (bsl # unicode_pass rest)"
  shows "decoded (pre @ bsl # chr_x # h2 @ rest) = decoded (pre @ bsl # rest)"
proof -
  have p1: "unicode_pass (pre @ bsl # rest) = unicode_pass pre @ bsl # unicode_pass rest"
    unfolding unicode_pass_def using assms(4) by (intro sub_escapes_at_backslash) auto
  have p2: "hex_pass (unicode_pass pre @ bsl # unicode_pass rest)
      = hex_pass (unicode_pass pre) @ bsl # hex_pass (unicode_pass rest)"
    unfolding hex_pass_def using assms(5) by (intro sub_escapes_at_backslash) auto
  show ?thesis
    by (simp add: decoded_passes unicode_pass_hex_escape[OF assms(2)]
        hex_pass_backslash[OF assms(1,2,3)] p1 p2)
qed

lemma decoded_slash_once:
  "decoded (pre @ [bsl, bsl, chr_slash] @ post) = decoded pre @ [bsl, chr_slash] @ decoded post"
proof -
  have k: "sub_escapes l n v (pre' @ bsl # bsl # chr_slash # post')
      = sub_escapes l n v pre' @ bsl # bsl # chr_slash # sub_escapes l n v post'"
    if "l \<noteq> bsl" and ns: "l \<noteq> chr_slash" for l n v pre' post'
  proof -
    have "\<not> escape_at l n (chr_slash # post')" using escape_at_head by fastforce
    then have a0: "sub_escapes l n v (chr_slash # post') = chr_slash # sub_escapes l n v post'"
      by (rule sub_escapes_miss)
    have "\<not> escape_at l n (bsl # chr_slash # post')" using ns by auto
    then have a1: "sub_escapes l n v (bsl # chr_slash # post')
        = bsl # chr_slash # sub_escapes l n v post'"
      using a0 by (simp add: sub_escapes_miss)
    have "\<not> escape_at l n (bsl # bsl # chr_slash # post')" using that(1) by simp
    then have a2: "sub_escapes l n v (bsl # bsl # chr_slash # post')
        = bsl # bsl # chr_slash # sub_escapes l n v post'"
      using a1 by (simp add: sub_escapes_miss)
    show ?thesis
      using sub_escapes_split[OF that(1), of n v pre' "bsl # chr_slash # post'"] a2 by simp
  qed
  have s: "slash_pass (a @ bsl # bsl # chr_slash # b) = slash_pass a @ bsl # chr_slash # slash_pass b"
    for a b
    using slash_pass_at_backslash[of "bsl # chr_slash # b" a] by (simp add: startswith_def)
  show ?thesis
    by (simp add: decoded_passes unicode_pass_def hex_pass_def k s)
qed

section \<open>File names\<close>

lemma rfind_less: "rfind c s = Some i \<Longrightarrow> i < length s"
  by (induction s arbitrary: i) (auto split: option.splits if_splits)

lemma rfind_nth: "rfind c s = Some i \<Longrightarrow> s ! i = c"
  by (induction s arbitrary: i) (auto split: option.splits if_splits)

lemma rfind_None: "(rfind c s = None) = (c \<notin> set s)"
  by (induction s) (auto split: option.splits)

lemma rfind_append:
  "rfind c (a @ b) = (case rfind c b of Some i \<Rightarrow> Some (length a + i) | None \<Rightarrow> rfind c a)"
  by (induction a) (auto split: option.splits)

lemma rfind_drop:
  assumes "rfind c s = Some i"
  shows "rfind c (drop i s) = Some 0"
proof -
  have i: "i < length s" using assms by (rule rfind_less)
  have e: "rfind c s = (case rfind c (drop i s) of
                          Some j \<Rightarrow> Some (length (take i s) + j)
                        | None \<Rightarrow> rfind c (take i s))"
    using rfind_append[of c "take i s" "drop i s"] by simp
  show ?thesis
  proof (cases "rfind c (drop i s)")
    case None
    then have "rfind c (take i s) = Some i" using e assms by simp
    then have "i < length (take i s)" by (rule rfind_less)
    then show ?thesis by simp
  next
    case (Some j)
    then have "i = length (take i s) + j" using e assms by simp
    then show ?thesis using Some i by simp
  qed
qed


lemma str_contains_append: "str_contains p (a @ p @ b)"
proof (induction a)
  case Nil
  have s: "startswith p (p @ b)" by (simp add: startswith_def)
  show ?case
  proof (cases "p @ b")
    case Nil
    then show ?thesis by simp
  next
    case (Cons x xs)
    then show ?thesis using s by simp
  qed
next
  case (Cons x a)
  then show ?case by simp
qed


lemma new_file_stem:
  assumes "name = [] \<or> last name \<noteq> chr_dot"
  shows "path_stem (new_file_name name) = path_stem name @ ustr ''_decoded''"
proof (cases "rfind chr_dot name")
  case None
  then have "rfind chr_dot (name @ ustr ''_decoded'') = None"
    by (simp add: rfind_None)
  then show ?thesis
    using None by (simp add: new_file_name_def path_stem_def path_suffix_def)
next
  case (Some i)
  have i: "i < length name" using Some by (rule rfind_less)
  show ?thesis
  proof (cases "0 < i \<and> i + 1 < length name")
    case True
    have "rfind chr_dot ((take i name @ ustr ''_decoded'') @ drop i name) = Some (i + 8)"
      using rfind_drop[OF Some] i by (simp only: rfind_append) simp
    then have r: "rfind chr_dot (take i name @ ustr ''_decoded'' @ drop i name) = Some (i + 8)"
      by simp
    have n: "new_file_name name = take i name @ ustr ''_decoded'' @ drop i name"
      using Some True by (simp add: new_file_name_def path_stem_def path_suffix_def)
    have "path_stem (new_file_name name) = take (i + 8) (take i name @ ustr ''_decoded'' @ drop i name)"
      unfolding n using r True i by (simp add: path_stem_def)
    also have "\<dots> = take i name @ ustr ''_decoded''"
      using i by simp
    finally show ?thesis using Some True by (simp add: path_stem_def)
  next
    case False
    have n: "new_file_name name = name @ ustr ''_decoded''"
      using Some False by (simp add: new_file_name_def path_stem_def path_suffix_def)
    have r: "rfind chr_dot (name @ ustr ''_decoded'') = Some i"
      using Some by (simp add: rfind_append rfind_None[THEN iffD2])
    have "i = 0"
    proof (rule ccontr)
      assume "i \<noteq> 0"
      then have "i = length name - 1" using False i by simp
      moreover have "name \<noteq> []" using i by auto
      ultimately have "last name = chr_dot"
        using rfind_nth[OF Some] by (simp add: last_conv_nth)
      then show False using assms \<open>name \<noteq> []\<close> by simp
    qed
    then show ?thesis
      using n r Some False by (simp add: path_stem_def)
  qed
qed

lemma carriage_return_read_back: "written_text w [97, 13, 98] = [97, 10, 98]"
  by (simp add: written_text_def write_newlines_def utf8_replace_def)

lemma new_file_name_trailing_dot:
  "new_file_name (ustr ''a.'') = ustr ''a._decoded''
   \<and> path_stem (new_file_name (ustr ''a.'')) = ustr ''a''
   \<and> \<not> str_contains (ustr ''_decoded'') (path_stem (new_file_name (ustr ''a.'')))"
  by (simp add: new_file_name_def path_stem_def path_suffix_def startswith_def)

section \<open>The decoder: the claims\<close>

text \<open>
  Claim C2. \<open>decode_unicode_escapes\<close> is the composition of three transformations in a
  fixed order: first every backslash-u followed by four hexadecimal digits (either case)
  becomes the character whose code point is that value read as a 16-bit unsigned integer,
  then every backslash-x followed by two hexadecimal digits becomes the character with that
  code point, then every backslash-slash becomes a slash. The call returns that text and
  prints no warning; the three tests that guard the passes in the code change nothing.
\<close>

theorem decode_is_three_passes:
  "decode_unicode_escapes s = Inr (slash_pass (hex_pass (unicode_pass s)), [])"
  by (rule decode_passes)

theorem decode_is_three_passes_witness:
  "decode_unicode_escapes (ustr ''{k:'' @ bsl # ustr ''u0041'' @ bsl # ustr ''/b, caf''
       @ bsl # ustr ''u00e9, '' @ bsl # ustr ''x41}'')
     = Inr (ustr ''{k:A/b, caf'' @ 233 # ustr '', A}'', [])"
proof -
  have "slash_pass (hex_pass (unicode_pass (ustr ''{k:'' @ bsl # ustr ''u0041'' @ bsl # ustr ''/b, caf''
       @ bsl # ustr ''u00e9, '' @ bsl # ustr ''x41}'')))
     = ustr ''{k:A/b, caf'' @ 233 # ustr '', A}''"
    by (simp add: unicode_pass_def hex_pass_def sub_escapes.simps[of _ _ _ "_ # _"]
        hex_word16_def hex_value_def hex_digit_def is_hex_def)
  then show ?thesis
    using decode_is_three_passes[of "ustr ''{k:'' @ bsl # ustr ''u0041'' @ bsl # ustr ''/b, caf''
       @ bsl # ustr ''u00e9, '' @ bsl # ustr ''x41}''"]
    by simp
qed

text \<open>
  Claim C4. A text without a backslash is returned as it is, and \<open>process_file\<close> finds
  it unchanged: it prints the skip line, writes nothing and returns \<open>False\<close>.
\<close>

theorem no_backslash_unchanged:
  assumes "bsl \<notin> set s"
  shows "decode_unicode_escapes s = Inr (s, [])
       \<and> (files w name = Some (Inr s) \<longrightarrow> process_file w name = (False, w, [Skip]))"
  using decoded_plain[OF assms] decode_returns[of s]
  by (simp add: process_file_def read_text_def)

theorem no_backslash_unchanged_witness:
  "decode_unicode_escapes (ustr ''plain text, no escapes'') = Inr (ustr ''plain text, no escapes'', [])
   \<and> process_file \<lparr>files = [ustr ''a.txt'' \<mapsto> Inr (ustr ''plain text, no escapes'')],
         write_error = (\<lambda>n. None), text_file = (\<lambda>n. True), linesep = [10]\<rparr> (ustr ''a.txt'')
     = (False, \<lparr>files = [ustr ''a.txt'' \<mapsto> Inr (ustr ''plain text, no escapes'')],
         write_error = (\<lambda>n. None), text_file = (\<lambda>n. True), linesep = [10]\<rparr>, [Skip])"
  using no_backslash_unchanged[of "ustr ''plain text, no escapes''"
      "\<lparr>files = [ustr ''a.txt'' \<mapsto> Inr (ustr ''plain text, no escapes'')],
         write_error = (\<lambda>n. None), text_file = (\<lambda>n. True), linesep = [10]\<rparr>" "ustr ''a.txt''"]
  by simp

text \<open>
  Claim C5. A backslash followed by a character other than \<open>u\<close>, \<open>x\<close>, the slash and
  the backslash (so \<open>\n\<close>, \<open>\r\<close>, \<open>\t\<close> and every other control escape) stays where it
  is, with the text before it and the text behind it decoded on their own. The witness is
  the specification's example, \<open>line1\nline2\<close> with a literal backslash.
\<close>

theorem control_escapes_kept:
  assumes "c \<notin> {bsl, chr_u, chr_x, chr_slash}"
  shows "decode_unicode_escapes (pre @ [bsl, c] @ post)
           = Inr (decoded pre @ [bsl, c] @ decoded post, [])"
proof -
  have "decoded (pre @ bsl # c # [] @ post) = decoded pre @ bsl # c # [] @ decoded post"
    using assms by (intro decoded_keep) auto
  then show ?thesis using decode_returns[of "pre @ [bsl, c] @ post"] by simp
qed

theorem control_escapes_kept_witness:
  "decode_unicode_escapes (ustr ''line1'' @ [bsl, 110] @ ustr ''line2'')
     = Inr (ustr ''line1'' @ [bsl, 110] @ ustr ''line2'', [])"
proof -
  have a: "decoded (ustr ''line1'') = ustr ''line1''" by (rule decoded_plain) simp
  have b: "decoded (ustr ''line2'') = ustr ''line2''" by (rule decoded_plain) simp
  show ?thesis
    using control_escapes_kept[of 110 "ustr ''line1''" "ustr ''line2''"] a b by simp
qed

text \<open>
  Claim C8. \<open>decode_unicode_escapes\<close> returns for every text, without a warning. The
  callback returns whatever the two conversions do, and with the matched text when one of
  them raises, so no substitution raises. Whatever the two \<open>re.sub\<close> calls do, the body
  returns: when the first raises, the result is that of the run without the first pass,
  behind the warning; when the second raises on the text \<open>d1\<close> it receives, the result
  is the slash pass of \<open>d1\<close>, with the warning printed last.
\<close>

theorem decode_never_raises:
  "(\<exists>t. decode_unicode_escapes s = Inr (t, []))
   \<and> (\<exists>r. replace_match to_int to_chr g0 g1 = Inr r)
   \<and> (to_int g1 = Inl e \<or> (\<exists>v. to_int g1 = Inr v \<and> to_chr v = Inl e)
        \<longrightarrow> replace_match to_int to_chr g0 g1 = Inr g0)
   \<and> (\<exists>t. re_sub_escape l n (replace_match to_int to_chr) s = Inr t)
   \<and> (\<exists>r. decode_with sub_u sub_x s = Inr r)
   \<and> (str_contains [bsl, chr_u] s \<and> sub_u s = Inl e
        \<longrightarrow> decode_with sub_u sub_x s =
            (case decode_with Inr sub_x s of
               Inr (t, ws) \<Rightarrow> Inr (t, WarnUnicode e # ws)
             | Inl e' \<Rightarrow> Inl e'))
   \<and> (d1 = (if str_contains [bsl, chr_u] s
              then (case sub_u s of Inr d \<Rightarrow> d | Inl e' \<Rightarrow> s) else s)
        \<and> str_contains [bsl, chr_x] d1 \<and> sub_x d1 = Inl e
        \<longrightarrow> (\<exists>ws. decode_with sub_u sub_x s = Inr (slash_pass d1, ws @ [WarnHex e])))"
proof -
  have 1: "\<exists>t. decode_unicode_escapes s = Inr (t, [])"
    using decode_returns by blast
  have 4: "\<exists>t. re_sub_escape l n (replace_match to_int to_chr) s = Inr t"
    by (rule re_sub_escape_total) (rule replace_match_returns)
  show ?thesis
    using 1 4 replace_match_returns[of to_int to_chr g0 g1]
      replace_match_fallback[of to_int g1 e to_chr g0]
      decode_with_returns[of sub_u sub_x s]
      decode_with_unicode_fails[of s sub_u e sub_x]
      decode_with_hex_fails[of d1 s sub_u sub_x e]
    by blast
qed

theorem decode_never_raises_witness:
  "replace_match (\<lambda>g. Inl ValueError) py_chr (bsl # ustr ''u0041'') (ustr ''0041'')
      = Inr (bsl # ustr ''u0041'')
   \<and> decode_with (\<lambda>t. Inl ValueError) (\<lambda>t. Inl OverflowError)
        (bsl # ustr ''u0041'' @ bsl # ustr ''x41'' @ bsl # ustr ''/'')
      = Inr (bsl # ustr ''u0041'' @ bsl # ustr ''x41/'', [WarnUnicode ValueError, WarnHex OverflowError])"
proof -
  let ?s = "bsl # ustr ''u0041'' @ bsl # ustr ''x41'' @ bsl # ustr ''/''"
  from decode_never_raises[of ?s "\<lambda>g. Inl ValueError" py_chr "bsl # ustr ''u0041''" "ustr ''0041''"
      ValueError chr_u 4 "\<lambda>t. Inl ValueError" "\<lambda>t. Inl OverflowError" ?s]
  have a: "replace_match (\<lambda>g. Inl ValueError) py_chr (bsl # ustr ''u0041'') (ustr ''0041'')
      = Inr (bsl # ustr ''u0041'')"
    and b: "decode_with (\<lambda>t. Inl ValueError) (\<lambda>t. Inl OverflowError) ?s =
            (case decode_with Inr (\<lambda>t. Inl OverflowError) ?s of
               Inr (t, ws) \<Rightarrow> Inr (t, WarnUnicode ValueError # ws)
             | Inl e' \<Rightarrow> Inl e')"
    by (simp_all add: startswith_def)
  have "decode_with Inr (\<lambda>t. Inl OverflowError) ?s
      = Inr (bsl # ustr ''u0041'' @ bsl # ustr ''x41/'', [WarnHex OverflowError])"
    by (simp add: decode_with_def startswith_def str_replace_Nil str_replace_Cons)
  with a b show ?thesis by simp
qed

text \<open>
  Claim C10. The returned text is never longer than the input; the callbacks turn a match
  of six or of four characters into one character.
\<close>

theorem decode_never_longer:
  "(\<exists>t. decode_unicode_escapes s = Inr (t, []) \<and> length t \<le> length s)
   \<and> (length g4 = 4 \<and> list_all is_hex g4 \<longrightarrow> (\<exists>c. replace_unicode (bsl # chr_u # g4) g4 = Inr [c]))
   \<and> (length g2 = 2 \<and> list_all is_hex g2 \<longrightarrow> (\<exists>c. replace_hex (bsl # chr_x # g2) g2 = Inr [c]))"
proof -
  have "length (slash_pass (hex_pass (unicode_pass s))) \<le> length (hex_pass (unicode_pass s))"
    by (rule slash_pass_length)
  also have "\<dots> \<le> length (unicode_pass s)"
    unfolding hex_pass_def by (rule sub_escapes_length)
  also have "\<dots> \<le> length s"
    unfolding unicode_pass_def by (rule sub_escapes_length)
  finally have "length (slash_pass (hex_pass (unicode_pass s))) \<le> length s" .
  then show ?thesis
    using decode_passes[of s] replace_unicode_char[of g4] replace_hex_char[of g2] by simp
qed

theorem decode_never_longer_witness:
  "(\<exists>t. decode_unicode_escapes (bsl # ustr ''u00e9'' @ bsl # ustr ''x41'' @ bsl # ustr ''/'')
          = Inr (t, [])
        \<and> length t \<le> length (bsl # ustr ''u00e9'' @ bsl # ustr ''x41'' @ bsl # ustr ''/''))
   \<and> (\<exists>c. replace_unicode (bsl # ustr ''u00e9'') (ustr ''00e9'') = Inr [c])
   \<and> (\<exists>c. replace_hex (bsl # ustr ''x41'') (ustr ''41'') = Inr [c])"
  using decode_never_longer[of "bsl # ustr ''u00e9'' @ bsl # ustr ''x41'' @ bsl # ustr ''/''"
      "ustr ''00e9''" "ustr ''41''"]
  by (simp add: is_hex_def)

text \<open>
  Claim C1, as it stands: a backslash that one pass produces is never read by a later pass
  of the same call. The code runs the passes one after the other on the running text, so
  this fails: the first pass turns \<open>\u005cx41\<close> into \<open>\x41\<close>, and the
  second pass decodes that to \<open>A\<close>.
\<close>

theorem backslash_read_by_later_pass:
  "re_sub_escape chr_u 4 replace_unicode (bsl # ustr ''u005cx41'') = Inr (bsl # ustr ''x41'')
   \<and> decode_unicode_escapes (bsl # ustr ''u005cx41'') = Inr (ustr ''A'', [])"
  by (simp add: run_decoder)

text \<open>
  Claim C1, amended. Each family is scanned once, in the order \<open>\u\<close>, \<open>\x\<close>,
  backslash-slash: what a pass emits is not read again by that pass or by an earlier one,
  and a later pass reads it as it reads a backslash of the input. \<open>h4\<close> and \<open>h2\<close> are
  the digits of an escape that stands for a backslash, \<open>r1\<close> is the text behind it as the
  first pass leaves it and \<open>r2\<close> as the second pass leaves it.
  \<^item> The backslash of \<open>\u005c\<close> stays a backslash, before the decoded rest, unless \<open>r1\<close>
    completes the pattern of the second pass or \<open>r2\<close> begins with a slash.
  \<^item> Where a backslash of the input would not begin a \<open>\u\<close> escape, the backslash of
    \<open>\u005c\<close> gives what a backslash of the input gives there.
  \<^item> The backslash of \<open>\x5c\<close> stays a backslash unless \<open>r2\<close> begins with a slash.
  \<^item> Where a backslash of the input would begin neither escape, the backslash of
    \<open>\x5c\<close> gives what a backslash of the input gives there.
  \<^item> A backslash before a backslash-slash stays: the third pass does not read the
    backslash and the slash it has just emitted.
  A decoder that ran one of the passes twice, or the passes in another order, would break
  one of these equations.
\<close>

theorem each_pass_reads_once:
  assumes "length h4 = 4 \<and> list_all is_hex h4 \<and> py_int16 h4 = Inr bsl"
    and "length h2 = 2 \<and> list_all is_hex h2 \<and> py_int16 h2 = Inr bsl"
    and "re_sub_escape chr_u 4 replace_unicode rest = Inr r1"
    and "re_sub_escape chr_x 2 replace_hex r1 = Inr r2"
  shows "(match_escape chr_x 2 (bsl # r1) = None \<and> \<not> startswith [chr_slash] r2 \<longrightarrow>
            decode_unicode_escapes (pre @ bsl # chr_u # h4 @ rest)
              = Inr (decoded pre @ bsl # decoded rest, []))
       \<and> (match_escape chr_u 4 (bsl # rest) = None \<longrightarrow>
            decode_unicode_escapes (pre @ bsl # chr_u # h4 @ rest)
              = decode_unicode_escapes (pre @ bsl # rest))
       \<and> (\<not> startswith [chr_slash] r2 \<longrightarrow>
            decode_unicode_escapes (pre @ bsl # chr_x # h2 @ rest)
              = Inr (decoded pre @ bsl # decoded rest, []))
       \<and> (match_escape chr_u 4 (bsl # rest) = None \<and> match_escape chr_x 2 (bsl # r1) = None \<longrightarrow>
            decode_unicode_escapes (pre @ bsl # chr_x # h2 @ rest)
              = decode_unicode_escapes (pre @ bsl # rest))
       \<and> decode_unicode_escapes (pre @ [bsl, bsl, chr_slash] @ post)
              = Inr (decoded pre @ [bsl, chr_slash] @ decoded post, [])"
proof -
  have r1: "r1 = unicode_pass rest" using assms(3) by (simp add: re_sub_unicode_pass)
  have r2: "r2 = hex_pass (unicode_pass rest)" using assms(4) r1 by (simp add: re_sub_hex_pass)
  have u: "(match_escape chr_u 4 (bsl # rest) = None) = (\<not> escape_at chr_u 4 (bsl # rest))"
    using match_escape_iff[of chr_u 4 "bsl # rest"] by blast
  have x: "(match_escape chr_x 2 (bsl # r1) = None) = (\<not> escape_at chr_x 2 (bsl # unicode_pass rest))"
    using match_escape_iff[of chr_x 2 "bsl # r1"] r1 by blast
  have 1: "decoded (pre @ bsl # chr_u # h4 @ rest) = decoded pre @ bsl # decoded rest"
    if "match_escape chr_x 2 (bsl # r1) = None" "\<not> startswith [chr_slash] r2"
    using that assms(1) x r2 by (intro decoded_unicode_backslash_kept) auto
  have 2: "decoded (pre @ bsl # chr_u # h4 @ rest) = decoded (pre @ bsl # rest)"
    if "match_escape chr_u 4 (bsl # rest) = None"
    using that assms(1) u by (intro decoded_unicode_backslash_later) auto
  have 3: "decoded (pre @ bsl # chr_x # h2 @ rest) = decoded pre @ bsl # decoded rest"
    if "\<not> startswith [chr_slash] r2"
    using that assms(2) r2 by (intro decoded_hex_backslash_kept) auto
  have 4: "decoded (pre @ bsl # chr_x # h2 @ rest) = decoded (pre @ bsl # rest)"
    if "match_escape chr_u 4 (bsl # rest) = None" "match_escape chr_x 2 (bsl # r1) = None"
    using that assms(2) u x by (intro decoded_hex_backslash_later) auto
  show ?thesis
    using 1 2 3 4 decoded_slash_once[of pre post] by (simp add: decode_returns)
qed

theorem each_pass_reads_once_witness:
  "decode_unicode_escapes (bsl # ustr ''u005cu0041'') = Inr (bsl # ustr ''u0041'', [])
   \<and> decode_unicode_escapes (bsl # ustr ''u005cxZZ'') = Inr (bsl # ustr ''xZZ'', [])
   \<and> decode_unicode_escapes (bsl # ustr ''u005c'' @ bsl # ustr ''n'') = Inr (bsl # bsl # ustr ''n'', [])
   \<and> decode_unicode_escapes (bsl # ustr ''u005cx41'') = Inr (ustr ''A'', [])
   \<and> decode_unicode_escapes (bsl # ustr ''u005c/'') = Inr (ustr ''/'', [])
   \<and> decode_unicode_escapes (bsl # ustr ''x5cx41'') = Inr (bsl # ustr ''x41'', [])
   \<and> decode_unicode_escapes (bsl # ustr ''x5cu0041'') = Inr (bsl # ustr ''u0041'', [])
   \<and> decode_unicode_escapes (bsl # ustr ''x5c/'') = Inr (ustr ''/'', [])
   \<and> decode_unicode_escapes [bsl, bsl, chr_slash] = Inr ([bsl, chr_slash], [])"
proof -
  have e: "decoded [] = []" by (rule decoded_plain) simp
  have h4: "length (ustr ''005c'') = 4 \<and> list_all is_hex (ustr ''005c'')
      \<and> py_int16 (ustr ''005c'') = Inr bsl"
    and h2: "length (ustr ''5c'') = 2 \<and> list_all is_hex (ustr ''5c'')
      \<and> py_int16 (ustr ''5c'') = Inr bsl"
    by (simp_all add: is_hex_def py_int16_def hex_digit_def)
  note t = each_pass_reads_once[OF h4 h2, where pre = "[]" and post = "[]"]
  have u1: "re_sub_escape chr_u 4 replace_unicode (ustr ''u0041'') = Inr (ustr ''u0041'')"
    and u2: "re_sub_escape chr_x 2 replace_hex (ustr ''u0041'') = Inr (ustr ''u0041'')"
    and ud: "decoded (ustr ''u0041'') = ustr ''u0041''"
    by (simp_all add: decoded_def run_decoder)
  have a: "decode_unicode_escapes (bsl # ustr ''u005cu0041'') = Inr (bsl # ustr ''u0041'', [])"
    and f: "decode_unicode_escapes (bsl # ustr ''x5cu0041'') = Inr (bsl # ustr ''u0041'', [])"
    and i: "decode_unicode_escapes [bsl, bsl, chr_slash] = Inr ([bsl, chr_slash], [])"
    using t[OF u1 u2] e ud by (simp_all add: match_escape_def is_hex_def startswith_def)
  have z1: "re_sub_escape chr_u 4 replace_unicode (ustr ''xZZ'') = Inr (ustr ''xZZ'')"
    and z2: "re_sub_escape chr_x 2 replace_hex (ustr ''xZZ'') = Inr (ustr ''xZZ'')"
    and zd: "decoded (ustr ''xZZ'') = ustr ''xZZ''"
    by (simp_all add: decoded_def run_decoder)
  have b: "decode_unicode_escapes (bsl # ustr ''u005cxZZ'') = Inr (bsl # ustr ''xZZ'', [])"
    using t[OF z1 z2] e zd by (simp add: match_escape_def is_hex_def startswith_def)
  have n1: "re_sub_escape chr_u 4 replace_unicode (bsl # ustr ''n'') = Inr (bsl # ustr ''n'')"
    and n2: "re_sub_escape chr_x 2 replace_hex (bsl # ustr ''n'') = Inr (bsl # ustr ''n'')"
    and nd: "decoded (bsl # ustr ''n'') = bsl # ustr ''n''"
    by (simp_all add: decoded_def run_decoder)
  have c: "decode_unicode_escapes (bsl # ustr ''u005c'' @ bsl # ustr ''n'')
      = Inr (bsl # bsl # ustr ''n'', [])"
    using t[OF n1 n2] e nd by (simp add: match_escape_def is_hex_def startswith_def)
  have x1: "re_sub_escape chr_u 4 replace_unicode (ustr ''x41'') = Inr (ustr ''x41'')"
    and x2: "re_sub_escape chr_x 2 replace_hex (ustr ''x41'') = Inr (ustr ''x41'')"
    and xd: "decoded (ustr ''x41'') = ustr ''x41''"
    by (simp_all add: decoded_def run_decoder)
  have d: "decode_unicode_escapes (bsl # ustr ''u005cx41'') = decode_unicode_escapes (bsl # ustr ''x41'')"
    and g: "decode_unicode_escapes (bsl # ustr ''x5cx41'') = Inr (bsl # ustr ''x41'', [])"
    using t[OF x1 x2] e xd by (simp_all add: match_escape_def is_hex_def startswith_def)
  have s1: "re_sub_escape chr_u 4 replace_unicode (ustr ''/'') = Inr (ustr ''/'')"
    and s2: "re_sub_escape chr_x 2 replace_hex (ustr ''/'') = Inr (ustr ''/'')"
    by (simp_all add: run_decoder)
  have h: "decode_unicode_escapes (bsl # ustr ''u005c/'') = decode_unicode_escapes (bsl # ustr ''/'')"
    and j: "decode_unicode_escapes (bsl # ustr ''x5c/'') = decode_unicode_escapes (bsl # ustr ''/'')"
    using t[OF s1 s2] by (simp_all add: match_escape_def is_hex_def startswith_def)
  have lx: "decode_unicode_escapes (bsl # ustr ''x41'') = Inr (ustr ''A'', [])"
    and ls: "decode_unicode_escapes (bsl # ustr ''/'') = Inr (ustr ''/'', [])"
    by (simp_all add: run_decoder)
  show ?thesis using a b c d f g h i j lx ls by simp
qed

lemma decode_is_not_a_fixpoint:
  "decode_unicode_escapes (bsl # ustr ''u005cu0041'') = Inr (bsl # ustr ''u0041'', [])
   \<and> decode_unicode_escapes (bsl # ustr ''u0041'') = Inr (ustr ''A'', [])"
  by (simp add: run_decoder)

text \<open>
  Claim C6, as it stands: a backslash-x that is not followed by two hexadecimal digits
  stays in the text. In \<open>\x4\u0031\<close> the pattern of the second pass does not
  match the input, yet the first pass puts the digit \<open>1\<close> behind the \<open>4\<close> and the
  second pass then decodes \<open>\x41\<close>: the span is gone.
\<close>

theorem unmatched_escape_read_later:
  "match_escape chr_x 2 (bsl # ustr ''x4'' @ bsl # ustr ''u0031'') = None
   \<and> decode_unicode_escapes (bsl # ustr ''x4'' @ bsl # ustr ''u0031'') = Inr (ustr ''A'', [])"
  by (simp add: run_decoder)

text \<open>
  Claim C6, amended. A backslash-u at which the first pattern does not match stays in
  place, with the backslash-free text \<open>w\<close> behind it, and the text before and after is
  decoded on its own. The same holds for a backslash-x when the second pattern does not
  match there in the text as the first pass leaves it (\<open>post1\<close> is what the first pass
  makes of the text behind \<open>w\<close>).
\<close>

theorem unmatched_escape_kept:
  assumes "bsl \<notin> set w"
  shows "(match_escape chr_u 4 (bsl # chr_u # w @ post) = None \<longrightarrow>
            decode_unicode_escapes (pre @ bsl # chr_u # w @ post)
              = Inr (decoded pre @ bsl # chr_u # w @ decoded post, []))
       \<and> (re_sub_escape chr_u 4 replace_unicode post = Inr post1
            \<and> match_escape chr_x 2 (bsl # chr_x # w @ post1) = None \<longrightarrow>
            decode_unicode_escapes (pre @ bsl # chr_x # w @ post)
              = Inr (decoded pre @ bsl # chr_x # w @ decoded post, []))"
proof -
  have u: "decoded (pre @ bsl # chr_u # w @ post) = decoded pre @ bsl # chr_u # w @ decoded post"
    if "match_escape chr_u 4 (bsl # chr_u # w @ post) = None"
    using that assms match_escape_iff[of chr_u 4 "bsl # chr_u # w @ post"]
    by (intro decoded_keep) auto
  have x: "decoded (pre @ bsl # chr_x # w @ post) = decoded pre @ bsl # chr_x # w @ decoded post"
    if "re_sub_escape chr_u 4 replace_unicode post = Inr post1"
      and "match_escape chr_x 2 (bsl # chr_x # w @ post1) = None"
  proof -
    have "post1 = unicode_pass post" using that(1) by (simp add: re_sub_unicode_pass)
    then show ?thesis
      using that(2) assms match_escape_iff[of chr_x 2 "bsl # chr_x # w @ unicode_pass post"]
      by (intro decoded_keep) auto
  qed
  show ?thesis using u x by (simp add: decode_returns)
qed

theorem unmatched_escape_kept_witness:
  "decode_unicode_escapes (bsl # ustr ''uZZZZ'') = Inr (bsl # ustr ''uZZZZ'', [])
   \<and> decode_unicode_escapes (bsl # ustr ''xZZ'') = Inr (bsl # ustr ''xZZ'', [])"
proof -
  have e: "decoded [] = []" by (rule decoded_plain) simp
  show ?thesis
    using unmatched_escape_kept[of "ustr ''ZZZZ''" "[]" "[]" "[]"]
      unmatched_escape_kept[of "ustr ''ZZ''" "[]" "[]" "[]"] e
    by (simp add: match_escape_def is_hex_def)
qed

section \<open>The file pipeline: the claims\<close>



text \<open>
  Claim C9, as it stands: the generated name holds the marker \<open>-decoded\<close> that the
  selection checks. The code writes and checks \<open>_decoded\<close>, with an underscore; the
  generated name of \<open>a.json\<close> has no \<open>-decoded\<close> in it.
\<close>

theorem output_name_lacks_hyphen_marker:
  "new_file_name (ustr ''a.json'') = ustr ''a_decoded.json''
   \<and> path_stem (new_file_name (ustr ''a.json'')) = ustr ''a_decoded''
   \<and> \<not> str_contains (ustr ''-decoded'') (path_stem (new_file_name (ustr ''a.json'')))"
  by (simp add: new_file_name_def path_stem_def path_suffix_def startswith_def)

text \<open>
  Claim C9, amended. For every input name that does not end in a dot, the stem of the
  generated name holds the marker \<open>_decoded\<close>, so the selection of a later run leaves
  the file out. (For a name ending in a dot see \<open>new_file_name_trailing_dot\<close>.)
\<close>

theorem output_not_selected_again:
  assumes "name = [] \<or> last name \<noteq> chr_dot"
  shows "str_contains (ustr ''_decoded'') (path_stem (new_file_name name))
       \<and> new_file_name name \<notin> set (files_to_process script w all_files)"
proof -
  have "str_contains (ustr ''_decoded'') (path_stem name @ ustr ''_decoded'' @ [])"
    by (rule str_contains_append)
  then have "str_contains (ustr ''_decoded'') (path_stem (new_file_name name))"
    using new_file_stem[OF assms] by simp
  then show ?thesis by (simp add: files_to_process_def)
qed

theorem output_not_selected_again_witness:
  "str_contains (ustr ''_decoded'') (path_stem (new_file_name (ustr ''a.json'')))
   \<and> new_file_name (ustr ''a.json'')
       \<notin> set (files_to_process (ustr ''unicode_decoder.py'')
                 \<lparr>files = Map.empty, write_error = (\<lambda>n. None), text_file = (\<lambda>n. True), linesep = [10]\<rparr>
                 [ustr ''a.json'', ustr ''a_decoded.json'', ustr ''unicode_decoder.py''])"
  using output_not_selected_again[of "ustr ''a.json''" "ustr ''unicode_decoder.py''"
      "\<lparr>files = Map.empty, write_error = (\<lambda>n. None), text_file = (\<lambda>n. True), linesep = [10]\<rparr>"
      "[ustr ''a.json'', ustr ''a_decoded.json'', ustr ''unicode_decoder.py'']"]
  by simp


subsection \<open>The counters\<close>

lemma count_result_errors: "error_count (count_result r t) = error_count t"
  by (simp add: count_result_def)

lemma process_files_errors:
  "error_count (snd (snd (process_files w names t))) = error_count t"
proof (induction names arbitrary: w t)
  case Nil
  show ?case by simp
next
  case (Cons name names)
  obtain r w' out where p: "process_file w name = (r, w', out)"
    by (cases "process_file w name")
  obtain w'' out' t' where q: "process_files w' names (count_result r t) = (w'', out', t')"
    by (cases "process_files w' names (count_result r t)")
  have "error_count t' = error_count (count_result r t)"
    using Cons[of w' "count_result r t"] q by simp
  then show ?case using p q by (simp add: count_result_errors)
qed

lemma main_errors: "error_count (snd (snd (main script w all_files))) = 0"
  by (simp add: main_def process_files_errors)

lemma process_file_read_error:
  "files w name = Some (Inl e) \<Longrightarrow> process_file w name = (False, w, [Error e])"
  by (simp add: process_file_def read_text_def)

text \<open>
  Claim C3. A failure while a file is processed is caught in \<open>process_file\<close>, printed as
  an error, and the loop goes on with the next file: so far the code does what the claim
  says. The claim also has the failure counted in the error tally. \<open>process_file\<close>
  returns \<open>False\<close> for a failure as it does for an unchanged file, so \<open>main\<close> counts it as
  skipped, and \<open>error_count\<close> stays at zero (\<open>main_errors\<close>). Here the directory holds
  \<open>a.txt\<close>, which cannot be read, and \<open>b.txt\<close> with one escape.
\<close>

theorem read_error_counted_as_skipped:
  "main (ustr ''unicode_decoder.py'')
     \<lparr>files = [ustr ''a.txt'' \<mapsto> Inl OSError, ustr ''b.txt'' \<mapsto> Inr (bsl # ustr ''u0041'')],
      write_error = (\<lambda>n. None), text_file = (\<lambda>n. True), linesep = [10]\<rparr>
     [ustr ''a.txt'', ustr ''b.txt'']
   = (\<lparr>files = [ustr ''a.txt'' \<mapsto> Inl OSError, ustr ''b.txt'' \<mapsto> Inr (bsl # ustr ''u0041''),
               ustr ''b_decoded.txt'' \<mapsto> Inr (ustr ''A'')],
       write_error = (\<lambda>n. None), text_file = (\<lambda>n. True), linesep = [10]\<rparr>,
      [Error OSError, Ok (ustr ''b_decoded.txt'')],
      \<lparr>processed_count = 1, skipped_count = 1, error_count = 0\<rparr>)"
proof -
  have d: "decode_unicode_escapes (bsl # ustr ''u0041'') = Inr (ustr ''A'', [])"
    by (simp add: run_decoder)
  have s: "path_stem (ustr ''a.txt'') = ustr ''a''" "path_stem (ustr ''b.txt'') = ustr ''b''"
    "path_suffix (ustr ''b.txt'') = ustr ''.txt''"
    by (simp_all add: path_stem_def path_suffix_def)
  show ?thesis
    using d s
    by (simp add: main_def files_to_process_def startswith_def process_file_def read_text_def
        write_text_def new_file_name_def written_text_def write_newlines_def utf8_replace_def
        count_result_def)
qed

end
